theory Spec2Isabelle
  imports Main "HOL-Library.Word"
begin

unbundle bit_operations_syntax

section \<open>The machine: registers, the converter and the observation log\<close>

text \<open>
  NoPartsBatteryGuageAVR.c runs on an 8-bit AVR whose \<open>int\<close> is 16 bits wide. The
  program talks to the hardware through memory-mapped registers only, so the model is a
  record of those registers, threaded through every statement, together with the part
  of the analog-to-digital converter that the program can observe: whether a conversion
  is running, how long it still takes and what it will deliver.
\<close>

type_synonym uint8_t = "8 word"
type_synonym uint16_t = "16 word"

text \<open>
  Modelled from the spec: the header \<open>avr/io.h\<close> is not part of the sources. The spec
  names the converter's enable bit, its start-conversion control and the indicator pin
  but not their positions; the positions below are those of the ATtinyX4 register map
  the source is written for (ADCSRA: ADEN bit 7, ADSC bit 6, ADPS1 bit 1, ADPS0 bit 0;
  port A: PORTA7 bit 7). \<open>_BV(b)\<close> is \<open>1 << b\<close>.
\<close>

definition BV :: "nat \<Rightarrow> uint8_t" where
  "BV b = push_bit b 1"

definition ADEN :: nat where "ADEN = 7"
definition ADSC :: nat where "ADSC = 6"
definition ADPS1 :: nat where "ADPS1 = 1"
definition ADPS0 :: nat where "ADPS0 = 0"
definition PORTA7 :: nat where "PORTA7 = 7"

text \<open>Line 36: \<open>#define F_CPU 1000000\<close>, the clock \<open>_delay_ms\<close> is sized for.\<close>

definition F_CPU :: nat where "F_CPU = 1000000"

text \<open>
  What an observer of the device can see, in program order. \<open>ConvStart k\<close> and
  \<open>ConvDone k r\<close> are the start and the end of the converter's \<open>k\<close>-th conversion, the
  latter with the 10-bit result \<open>r\<close>; \<open>Delay_ms n\<close> is the beginning of a blocking delay
  of \<open>n\<close> milliseconds; \<open>Pin b\<close> is a write to port A that leaves PA7 at level \<open>b\<close>;
  \<open>Call\<close> and \<open>Return v\<close> bracket \<open>readVccVoltage\<close>.
\<close>

datatype event =
    Call
  | Return uint16_t
  | ConvStart nat
  | ConvDone nat "10 word"
  | Delay_ms nat
  | Pin bool

text \<open>
  Every logged event carries a snapshot taken when the event happens: the level of
  PA7, the converter's enable bit, and whether control is inside \<open>readVccVoltage\<close>.
\<close>

record obs =
  act :: event
  pin_high :: bool
  adc_on :: bool
  in_call :: bool

text \<open>
  The registers the program touches, and the converter behind them. The converter is
  the program's environment: \<open>adc_sample k\<close> is the result of the \<open>k\<close>-th conversion
  that completes and \<open>adc_cycles k\<close> the number of CPU cycles it takes. \<open>adc_count\<close>
  counts the completed conversions and \<open>adc_busy\<close> the cycles the running one still
  needs (it runs exactly while ADSC reads one). The interrupt flag ADIF, which the
  program never reads, is left out, and so is ADCSRB, which it never writes: the result
  stays right-adjusted. \<open>in_readVcc\<close> and \<open>log\<close> are not part of the device: they
  record where control is and what has happened so far.
\<close>

record mcu =
  ADMUX :: uint8_t
  ADCSRA :: uint8_t
  ADCL :: uint8_t
  ADCH :: uint8_t
  DDRA :: uint8_t
  PORTA :: uint8_t
  adc_busy :: nat
  adc_count :: nat
  adc_sample :: "nat \<Rightarrow> 10 word"
  adc_cycles :: "nat \<Rightarrow> nat"
  in_readVcc :: bool
  log :: "obs list"

definition emit :: "event \<Rightarrow> mcu \<Rightarrow> mcu" where
  "emit e s = s\<lparr>log := log s @
     [\<lparr>act = e, pin_high = bit (PORTA s) PORTA7, adc_on = bit (ADCSRA s) ADEN,
       in_call = in_readVcc s\<rparr>]\<rparr>"

text \<open>
  The end of a conversion: the hardware clears ADSC and stores the right-adjusted
  10-bit result in the result registers, low eight bits in ADCL, the other two in ADCH.
\<close>

definition adc_complete :: "mcu \<Rightarrow> mcu" where
  "adc_complete s =
     (let r = adc_sample s (adc_count s) in
      emit (ConvDone (adc_count s) r)
        (s\<lparr>ADCSRA := ADCSRA s AND NOT (BV ADSC),
           ADCL := ucast r, ADCH := ucast (drop_bit 8 r),
           adc_busy := 0, adc_count := Suc (adc_count s)\<rparr>))"

text \<open>The converter while \<open>n\<close> CPU cycles pass.\<close>

definition adc_advance :: "nat \<Rightarrow> mcu \<Rightarrow> mcu" where
  "adc_advance n s =
     (if bit (ADCSRA s) ADSC
      then (if adc_busy s \<le> n then adc_complete s else s\<lparr>adc_busy := adc_busy s - n\<rparr>)
      else s)"

text \<open>
  A write of \<open>v\<close> to ADCSRA. Clearing ADEN switches the converter off and abandons a
  running conversion. With the converter on, writing one to ADSC starts a conversion
  unless one is running, also when ADEN is set by the same write; writing zero to ADSC
  has no effect, the bit stays set until the hardware clears it.
\<close>

definition write_ADCSRA :: "uint8_t \<Rightarrow> mcu \<Rightarrow> mcu" where
  "write_ADCSRA v s =
     (if \<not> bit v ADEN then s\<lparr>ADCSRA := v AND NOT (BV ADSC), adc_busy := 0\<rparr>
      else if bit (ADCSRA s) ADSC then s\<lparr>ADCSRA := v OR BV ADSC\<rparr>
      else if bit v ADSC then
        emit (ConvStart (adc_count s))
          (s\<lparr>ADCSRA := v, adc_busy := adc_cycles s (adc_count s)\<rparr>)
      else s\<lparr>ADCSRA := v\<rparr>)"

definition write_PORTA :: "uint8_t \<Rightarrow> mcu \<Rightarrow> mcu" where
  "write_PORTA v s = emit (Pin (bit v PORTA7)) (s\<lparr>PORTA := v\<rparr>)"

text \<open>\<open>_delay_ms(n)\<close> burns \<open>n * F_CPU / 1000\<close> cycles; the converter keeps running.\<close>

definition delay_ms :: "nat \<Rightarrow> mcu \<Rightarrow> mcu" where
  "delay_ms n s = adc_advance (n * (F_CPU div 1000)) (emit (Delay_ms n) s)"

section \<open>readVccVoltage\<close>

datatype error = DivisionByZero

text \<open>
  Lines 83 and 90: \<open>while( ADCSRA & _BV( ADSC) ) ;\<close>. Each test of the register costs
  at least one cycle, during which the converter advances.
\<close>

function wait_ADSC :: "mcu \<Rightarrow> mcu" where
  "wait_ADSC s =
     (if ADCSRA s AND BV ADSC \<noteq> 0 then wait_ADSC (adc_advance 1 s) else s)"
  by pat_completeness auto

termination
proof (relation "measure (\<lambda>s. if bit (ADCSRA s) ADSC then Suc (adc_busy s) else 0)")
  show "wf (measure (\<lambda>s. if bit (ADCSRA s) ADSC then Suc (adc_busy s) else 0))"
    by simp
next
  fix s :: mcu
  assume "ADCSRA s AND BV ADSC \<noteq> 0"
  then have running: "bit (ADCSRA s) ADSC"
    by (simp add: BV_def and_exp_eq_0_iff_not_bit push_bit_eq_mult)
  have "\<not> bit (ADCSRA s AND NOT (BV ADSC)) ADSC"
    by (simp add: BV_def ADSC_def bit_simps)
  with running show "(adc_advance 1 s, s)
      \<in> measure (\<lambda>s. if bit (ADCSRA s) ADSC then Suc (adc_busy s) else 0)"
    by (simp add: adc_advance_def adc_complete_def emit_def Let_def)
qed

declare wait_ADSC.simps [simp del]

text \<open>
  Lines 50 to 107, the first half of \<open>readVccVoltage\<close>: select the inputs, switch the
  converter on, wait, convert twice and read the result registers, low byte first. The
  value is the local variable \<open>adc\<close> with the machine as line 107 leaves it.
  \<open>high << 8\<close> is computed in 16 bits.
\<close>

definition read_adc :: "mcu \<Rightarrow> uint16_t \<times> mcu" where
  "read_adc s =
     (let s0 = emit Call (s\<lparr>in_readVcc := True\<rparr>);
          s1 = s0\<lparr>ADMUX := 0b00100001\<rparr>;
          s2 = write_ADCSRA (ADCSRA s1 OR (BV ADEN OR BV ADSC OR BV ADPS1 OR BV ADPS0)) s1;
          s3 = delay_ms 1 s2;
          s4 = write_ADCSRA (ADCSRA s3 OR BV ADSC) s3;
          s5 = wait_ADSC s4;
          s6 = write_ADCSRA (ADCSRA s5 OR BV ADSC) s5;
          s7 = wait_ADSC s6;
          low = ADCL s7;
          high = ADCH s7;
          adc = push_bit 8 (ucast high :: uint16_t) OR ucast low
      in (adc, s7))"

text \<open>
  Line 115: \<open>(uint8_t) ( (11 * 1024) / adc)\<close>. The constant is an \<open>int\<close> and \<open>adc\<close> an
  unsigned 16-bit value, so the division is the unsigned 16-bit one; the cast keeps the
  low eight bits. Dividing by zero is undefined in C: it is the error of the model.
\<close>

definition vccx10_of :: "uint16_t \<Rightarrow> error + uint8_t" where
  "vccx10_of adc =
     (if adc = 0 then Inl DivisionByZero
      else Inr (ucast ((11 * 1024) div adc)))"

text \<open>The raw sample a call made in state \<open>s\<close> reads from the converter.\<close>

definition raw_sample :: "mcu \<Rightarrow> uint16_t" where
  "raw_sample s = fst (read_adc s)"

text \<open>
  The whole function. The division comes before the converter is switched off
  (line 123); the 8-bit \<open>vccx10\<close> is widened to the declared return type.
\<close>

definition readVccVoltage :: "mcu \<Rightarrow> error + uint16_t \<times> mcu" where
  "readVccVoltage s =
     (case read_adc s of (adc, s1) \<Rightarrow>
        (case vccx10_of adc of
           Inl e \<Rightarrow> Inl e
         | Inr vccx10 \<Rightarrow>
             let s2 = write_ADCSRA (ADCSRA s1 AND NOT (BV ADEN)) s1
             in Inr (ucast vccx10, emit (Return (ucast vccx10)) (s2\<lparr>in_readVcc := False\<rparr>))))"

text \<open>The value a call made in state \<open>s\<close> returns, as a number, or its error.\<close>

definition decivolts :: "mcu \<Rightarrow> error + nat" where
  "decivolts s = map_sum id (unat \<circ> fst) (readVccVoltage s)"

section \<open>main\<close>

text \<open>
  Lines 151 to 161, the blink loop with its counter \<open>i\<close>, an \<open>int\<close> that stays below
  26, compared with \<open>vcc\<close> after the usual promotion.
\<close>

function blink_loop :: "int \<Rightarrow> uint8_t \<Rightarrow> mcu \<Rightarrow> mcu" where
  "blink_loop i vcc s =
     (if i < uint vcc then
        (let s1 = write_PORTA (PORTA s OR BV PORTA7) s;
             s2 = delay_ms 250 s1;
             s3 = write_PORTA (PORTA s2 AND NOT (BV PORTA7)) s2;
             s4 = delay_ms 250 s3
         in blink_loop (i + 1) vcc s4)
      else s)"
  by pat_completeness auto
termination
  by (relation "measure (\<lambda>(i, vcc, s). nat (uint vcc - i))") auto

declare blink_loop.simps [simp del]

text \<open>Lines 147 to 161: the whole-volt count and the blinks, given the reading.\<close>

definition indicate :: "uint8_t \<Rightarrow> mcu \<Rightarrow> mcu" where
  "indicate vccx10 s = (let vcc = vccx10 div 10 in blink_loop 0 vcc s)"

text \<open>One round of \<open>while(1)\<close>, lines 143 to 163.\<close>

definition loop_body :: "mcu \<Rightarrow> error + mcu" where
  "loop_body s =
     (case readVccVoltage s of
        Inl e \<Rightarrow> Inl e
      | Inr (r, s1) \<Rightarrow>
          let vccx10 = (ucast r :: uint8_t)
          in Inr (delay_ms 1000 (indicate vccx10 s1)))"

text \<open>
  \<open>while(1)\<close> never exits. \<open>main_loop n\<close> is the machine after the first \<open>n\<close> rounds, a
  prefix of the endless run, or the error that cut it short.
\<close>

fun main_loop :: "nat \<Rightarrow> mcu \<Rightarrow> error + mcu" where
  "main_loop 0 s = Inr s"
| "main_loop (Suc n) s =
     (case loop_body s of Inl e \<Rightarrow> Inl e | Inr s' \<Rightarrow> main_loop n s')"

text \<open>\<open>main\<close>: line 135 makes PA7 an output, then the loop runs; \<open>n\<close> rounds of it here.\<close>

definition main :: "nat \<Rightarrow> mcu \<Rightarrow> error + mcu" where
  "main n s = main_loop n (s\<lparr>DDRA := DDRA s OR BV PORTA7\<rparr>)"

text \<open>
  A test bench: the device after power-on reset, every register zero, wired to a
  simulated converter that delivers \<open>r\<close> on every conversion after \<open>c\<close> cycles.
\<close>

definition bench :: "10 word \<Rightarrow> nat \<Rightarrow> mcu" where
  "bench r c =
     \<lparr>ADMUX = 0, ADCSRA = 0, ADCL = 0, ADCH = 0, DDRA = 0, PORTA = 0,
      adc_busy = 0, adc_count = 0, adc_sample = (\<lambda>_. r), adc_cycles = (\<lambda>_. c),
      in_readVcc = False, log = []\<rparr>"

text \<open>The events that write the port.\<close>

fun pin_event :: "event \<Rightarrow> bool" where
  "pin_event (Pin b) = True"
| "pin_event _ = False"

text \<open>The events logged between two states of one run.\<close>

definition new_obs :: "mcu \<Rightarrow> mcu \<Rightarrow> obs list" where
  "new_obs s s' = drop (length (log s)) (log s')"

text \<open>The number of blinks in a stretch of the log: the writes that drive PA7 high.\<close>

definition blinks :: "obs list \<Rightarrow> nat" where
  "blinks xs = length (filter (\<lambda>x. act x = Pin True) xs)"

text \<open>The number of blinks in the round of \<open>while(1)\<close> started in state \<open>s\<close>.\<close>

definition round_blinks :: "mcu \<Rightarrow> error + nat" where
  "round_blinks s = map_sum id (\<lambda>s'. blinks (new_obs s s')) (loop_body s)"

text \<open>
  What one pulse of the blink loop leaves in the log while the converter is idle, with
  \<open>a\<close> the converter's enable bit and \<open>c\<close> the call flag at that time.
\<close>

definition pulse_obs :: "bool \<Rightarrow> bool \<Rightarrow> obs list" where
  "pulse_obs a c =
     [\<lparr>act = Pin True, pin_high = True, adc_on = a, in_call = c\<rparr>,
      \<lparr>act = Delay_ms 250, pin_high = True, adc_on = a, in_call = c\<rparr>,
      \<lparr>act = Pin False, pin_high = False, adc_on = a, in_call = c\<rparr>,
      \<lparr>act = Delay_ms 250, pin_high = False, adc_on = a, in_call = c\<rparr>]"

text \<open>
  A stretch of execution that leaves the port, the call flag and the environment alone
  and logs no port write, so that every observation it adds was taken under the pin
  level and call flag it started with.
\<close>

definition quiet :: "mcu \<Rightarrow> mcu \<Rightarrow> bool" where
  "quiet s s' = (PORTA s' = PORTA s \<and> in_readVcc s' = in_readVcc s \<and>
     adc_sample s' = adc_sample s \<and> adc_cycles s' = adc_cycles s \<and>
     (\<exists>xs. log s' = log s @ xs \<and>
        (\<forall>x \<in> set xs. pin_high x = bit (PORTA s) PORTA7 \<and> in_call x = in_readVcc s \<and>
           \<not> pin_event (act x))))"

section \<open>Registers and the converter\<close>

lemma bit_BV: "bit (BV b) n = (n = b \<and> b < 8)"
  by (auto simp add: BV_def bit_simps)

lemma ADSC_test: "(x AND BV ADSC \<noteq> 0) = bit x ADSC"
  by (simp add: BV_def and_exp_eq_0_iff_not_bit push_bit_eq_mult)

lemmas bit_regs = bit_or_iff bit_and_iff bit_not_iff bit_BV
  ADEN_def ADSC_def ADPS1_def ADPS0_def PORTA7_def

lemma adc_complete_busy: "adc_complete (s\<lparr>adc_busy := k\<rparr>) = adc_complete s"
  by (simp add: adc_complete_def emit_def Let_def)

lemma adc_complete_idle: "\<not> bit (ADCSRA (adc_complete s)) ADSC"
  by (simp add: adc_complete_def emit_def Let_def bit_regs)

lemma wait_ADSC_eq: "wait_ADSC s = (if bit (ADCSRA s) ADSC then adc_complete s else s)"
proof (induction s rule: wait_ADSC.induct)
  case (1 s)
  show ?case
  proof (cases "bit (ADCSRA s) ADSC")
    case False
    then show ?thesis
      by (simp add: wait_ADSC.simps [of s] ADSC_test)
  next
    case True
    then have step: "wait_ADSC s = wait_ADSC (adc_advance 1 s)"
      by (simp add: wait_ADSC.simps [of s] ADSC_test)
    from True have ih: "wait_ADSC (adc_advance 1 s) =
        (if bit (ADCSRA (adc_advance 1 s)) ADSC then adc_complete (adc_advance 1 s)
         else adc_advance 1 s)"
      by (intro 1) (simp add: ADSC_test)
    have "wait_ADSC (adc_advance 1 s) = adc_complete s"
    proof (cases "adc_busy s \<le> 1")
      case True
      with \<open>bit (ADCSRA s) ADSC\<close> have "adc_advance 1 s = adc_complete s"
        by (simp add: adc_advance_def)
      with ih show ?thesis
        by (simp add: adc_complete_idle)
    next
      case False
      with \<open>bit (ADCSRA s) ADSC\<close>
      have "adc_advance 1 s = s\<lparr>adc_busy := adc_busy s - 1\<rparr>"
        by (simp add: adc_advance_def)
      with ih \<open>bit (ADCSRA s) ADSC\<close> show ?thesis
        by (simp add: adc_complete_busy)
    qed
    with step True show ?thesis by simp
  qed
qed

lemma delay_ms_idle: "\<not> bit (ADCSRA s) ADSC \<Longrightarrow> delay_ms n s = emit (Delay_ms n) s"
  by (simp add: delay_ms_def adc_advance_def emit_def)

section \<open>Quiet stretches\<close>

lemma quiet_refl: "quiet s s"
  by (simp add: quiet_def)

lemma quiet_trans: "quiet s s' \<Longrightarrow> quiet s' s'' \<Longrightarrow> quiet s s''"
  by (auto simp add: quiet_def)

lemma quiet_emit: "\<not> pin_event e \<Longrightarrow> quiet s (emit e s)"
  by (simp add: quiet_def emit_def)

lemma quiet_adc_complete: "quiet s (adc_complete s)"
  by (simp add: quiet_def adc_complete_def emit_def Let_def)

lemma quiet_adc_advance: "quiet s (adc_advance n s)"
  using quiet_adc_complete [of s] by (simp add: adc_advance_def quiet_def)

lemma quiet_write_ADCSRA: "quiet s (write_ADCSRA v s)"
  by (simp add: quiet_def write_ADCSRA_def emit_def)

lemma quiet_delay_ms: "quiet s (delay_ms n s)"
proof -
  have "quiet s (emit (Delay_ms n) s)"
    by (rule quiet_emit) simp
  then show ?thesis
    unfolding delay_ms_def using quiet_adc_advance by (rule quiet_trans)
qed

lemma quiet_wait_ADSC: "quiet s (wait_ADSC s)"
  by (simp add: wait_ADSC_eq quiet_refl quiet_adc_complete)

section \<open>The acquisition half of readVccVoltage\<close>

lemma adc_word: "push_bit 8 (ucast (ucast (drop_bit 8 r) :: uint8_t) :: uint16_t) OR ucast (ucast r :: uint8_t) = ucast (r :: 10 word)"
  by (rule bit_word_eqI) (auto simp add: bit_simps)

lemma write_ADCSRA_start:
  assumes "bit v ADEN" "bit v ADSC"
  shows "bit (ADCSRA (write_ADCSRA v s)) ADEN" and "bit (ADCSRA (write_ADCSRA v s)) ADSC"
  using assms by (simp_all add: write_ADCSRA_def emit_def bit_regs)

lemma write_ADCSRA_restart:
  assumes "bit (ADCSRA s) ADEN"
  shows "bit (ADCSRA (write_ADCSRA (ADCSRA s OR BV ADSC) s)) ADEN"
    and "bit (ADCSRA (write_ADCSRA (ADCSRA s OR BV ADSC) s)) ADSC"
proof -
  from assms have "bit (ADCSRA s OR BV ADSC) ADEN" and "bit (ADCSRA s OR BV ADSC) ADSC"
    by (simp_all add: bit_regs)
  then show "bit (ADCSRA (write_ADCSRA (ADCSRA s OR BV ADSC) s)) ADEN"
    and "bit (ADCSRA (write_ADCSRA (ADCSRA s OR BV ADSC) s)) ADSC"
    by (rule write_ADCSRA_start)+
qed

lemma adc_complete_ADEN: "bit (ADCSRA (adc_complete s)) ADEN = bit (ADCSRA s) ADEN"
  by (simp add: adc_complete_def emit_def Let_def bit_regs)

lemma adc_advance_ADEN: "bit (ADCSRA (adc_advance n s)) ADEN = bit (ADCSRA s) ADEN"
  by (simp add: adc_advance_def adc_complete_ADEN)

lemma delay_ms_ADEN: "bit (ADCSRA (delay_ms n s)) ADEN = bit (ADCSRA s) ADEN"
  by (simp add: delay_ms_def adc_advance_ADEN) (simp add: emit_def)

lemma read_adc_props:
  assumes "read_adc s = (adc, s')"
  shows "quiet (emit Call (s\<lparr>in_readVcc := True\<rparr>)) s'"
    and "bit (ADCSRA s') ADEN"
    and "\<not> bit (ADCSRA s') ADSC"
    and "adc = ucast (adc_sample s (adc_count s' - 1))"
proof -
  define s0 where "s0 = emit Call (s\<lparr>in_readVcc := True\<rparr>)"
  define s1 where "s1 = s0\<lparr>ADMUX := 0b00100001\<rparr>"
  define s2 where "s2 = write_ADCSRA (ADCSRA s1 OR (BV ADEN OR BV ADSC OR BV ADPS1 OR BV ADPS0)) s1"
  define s3 where "s3 = delay_ms 1 s2"
  define s4 where "s4 = write_ADCSRA (ADCSRA s3 OR BV ADSC) s3"
  define s5 where "s5 = wait_ADSC s4"
  define s6 where "s6 = write_ADCSRA (ADCSRA s5 OR BV ADSC) s5"
  define s7 where "s7 = wait_ADSC s6"
  have "read_adc s = (push_bit 8 (ucast (ADCH s7) :: uint16_t) OR ucast (ADCL s7), s7)"
    unfolding read_adc_def Let_def s0_def s1_def s2_def s3_def s4_def s5_def s6_def s7_def
    by (rule refl)
  with assms have s': "s' = s7"
    and adc: "adc = push_bit 8 (ucast (ADCH s7) :: uint16_t) OR ucast (ADCL s7)"
    by auto
  have q01: "quiet s0 s1" by (simp add: quiet_def s1_def)
  have q12: "quiet s1 s2" unfolding s2_def by (rule quiet_write_ADCSRA)
  have q23: "quiet s2 s3" unfolding s3_def by (rule quiet_delay_ms)
  have q34: "quiet s3 s4" unfolding s4_def by (rule quiet_write_ADCSRA)
  have q45: "quiet s4 s5" unfolding s5_def by (rule quiet_wait_ADSC)
  have q56: "quiet s5 s6" unfolding s6_def by (rule quiet_write_ADCSRA)
  have q67: "quiet s6 s7" unfolding s7_def by (rule quiet_wait_ADSC)
  have q06: "quiet s0 s6"
    by (rule quiet_trans [OF q01 quiet_trans [OF q12 quiet_trans [OF q23 quiet_trans [OF q34 quiet_trans [OF q45 q56]]]]])
  then have q07: "quiet s0 s7" using q67 by (rule quiet_trans)
  then show "quiet (emit Call (s\<lparr>in_readVcc := True\<rparr>)) s'"
    by (simp add: s' s0_def)
  have en2: "bit (ADCSRA s2) ADEN" unfolding s2_def
    by (rule write_ADCSRA_start) (simp_all add: bit_regs)
  then have en3: "bit (ADCSRA s3) ADEN" by (simp add: s3_def delay_ms_ADEN)
  have en4: "bit (ADCSRA s4) ADEN" and run4: "bit (ADCSRA s4) ADSC" unfolding s4_def
    using en3 by (rule write_ADCSRA_restart)+
  from run4 have s5: "s5 = adc_complete s4" by (simp add: s5_def wait_ADSC_eq)
  then have en5: "bit (ADCSRA s5) ADEN" using en4 by (simp add: adc_complete_ADEN)
  have en6: "bit (ADCSRA s6) ADEN" and run6: "bit (ADCSRA s6) ADSC" unfolding s6_def
    using en5 by (rule write_ADCSRA_restart)+
  from run6 have s7: "s7 = adc_complete s6" by (simp add: s7_def wait_ADSC_eq)
  with en6 show "bit (ADCSRA s') ADEN" by (simp add: s' adc_complete_ADEN)
  from s7 show "\<not> bit (ADCSRA s') ADSC" by (simp add: s' adc_complete_idle)
  have "adc_sample s6 = adc_sample s" using q06 by (simp add: quiet_def s0_def emit_def)
  then show "adc = ucast (adc_sample s (adc_count s' - 1))"
    by (simp add: adc s' s7 adc_complete_def emit_def Let_def adc_word)
qed

section \<open>The decivolt formula\<close>

lemma unat_sample: "unat (ucast (r :: 10 word) :: uint16_t) = unat r"
  by (simp add: unsigned_ucast_eq take_bit_nat_eq_self_iff) 
    (rule less_trans [OF unsigned_less], simp)

lemma raw_sample_le: "unat (raw_sample s) \<le> 1023"
proof -
  obtain adc s' where r: "read_adc s = (adc, s')" by (cases "read_adc s")
  define w where "w = adc_sample s (adc_count s' - 1)"
  have "raw_sample s = ucast w"
    using read_adc_props(4) [OF r] r by (simp add: raw_sample_def w_def)
  then have "unat (raw_sample s) = unat w" by (simp add: unat_sample)
  moreover have "unat w < 1024"
    using unsigned_less [of w, where ?'a = nat] by simp
  ultimately show ?thesis by simp
qed

lemma vccx10_value:
  "unat (ucast (ucast (11264 div a :: uint16_t) :: uint8_t) :: uint16_t) = (11264 div unat a) mod 256"
  by (simp add: unsigned_ucast_eq take_bit_eq_mod unat_div unat_mod)

lemma quotient_small: "45 \<le> (a::nat) \<Longrightarrow> 11264 div a < 256"
proof -
  assume "45 \<le> a"
  then have "11264 div a \<le> 11264 div 45" by (intro div_le_mono2) simp_all
  then show ?thesis by simp
qed

section \<open>What readVccVoltage returns\<close>

lemma readVccVoltage_zero: "raw_sample s = 0 \<Longrightarrow> readVccVoltage s = Inl DivisionByZero"
  by (cases "read_adc s") (simp add: readVccVoltage_def raw_sample_def vccx10_of_def)

lemma readVccVoltage_nonzero:
  "raw_sample s \<noteq> 0 \<Longrightarrow>
   \<exists>s'. readVccVoltage s = Inr (ucast (ucast ((11 * 1024) div raw_sample s) :: uint8_t), s')"
  by (cases "read_adc s") (simp add: readVccVoltage_def raw_sample_def vccx10_of_def Let_def)

lemma decivolts_nonzero:
  "raw_sample s \<noteq> 0 \<Longrightarrow> decivolts s = Inr ((11264 div unat (raw_sample s)) mod 256)"
  using readVccVoltage_nonzero [of s] vccx10_value [of "raw_sample s"]
  by (auto simp add: decivolts_def)

lemma decivolts_zero: "raw_sample s = 0 \<Longrightarrow> decivolts s = Inl DivisionByZero"
  by (simp add: decivolts_def readVccVoltage_zero)

lemma raw_sample_bench: "raw_sample (bench r c) = ucast r"
proof -
  obtain adc s' where r: "read_adc (bench r c) = (adc, s')" by (cases "read_adc (bench r c)")
  then show ?thesis
    using read_adc_props(4) [OF r] by (simp add: raw_sample_def bench_def)
qed

lemma unat_raw_sample_bench: "unat (raw_sample (bench r c)) = unat r"
  by (simp add: raw_sample_bench unat_sample)

lemma raw_sample_nonzero: "1 \<le> unat (raw_sample s) \<Longrightarrow> raw_sample s \<noteq> 0"
  by auto

section \<open>The state readVccVoltage returns\<close>

lemma readVccVoltage_returns:
  assumes "readVccVoltage s = Inr (v, s')"
  shows "PORTA s' = PORTA s"
    and "\<not> bit (ADCSRA s') ADEN"
    and "\<not> bit (ADCSRA s') ADSC"
    and "\<not> in_readVcc s'"
    and "adc_sample s' = adc_sample s"
    and "adc_cycles s' = adc_cycles s"
    and "\<exists>xs. log s' = log s @ xs \<and>
           (\<forall>x \<in> set xs. pin_high x = bit (PORTA s) PORTA7 \<and> \<not> pin_event (act x) \<and>
              (in_call x \<or> \<not> adc_on x))"
    and "ucast (ucast v :: uint8_t) = v"
proof -
  obtain adc s1 where r: "read_adc s = (adc, s1)" by (cases "read_adc s")
  define s0 where "s0 = emit Call (s\<lparr>in_readVcc := True\<rparr>)"
  from assms r obtain x where x: "vccx10_of adc = Inr x"
    by (cases "vccx10_of adc") (simp_all add: readVccVoltage_def)
  define s2 where "s2 = write_ADCSRA (ADCSRA s1 AND NOT (BV ADEN)) s1"
  from assms r x have v: "v = ucast x"
    and s': "s' = emit (Return (ucast x)) (s2\<lparr>in_readVcc := False\<rparr>)"
    by (auto simp add: readVccVoltage_def Let_def s2_def)
  have off: "\<not> bit (ADCSRA s1 AND NOT (BV ADEN)) ADEN"
    by (simp add: bit_regs)
  then have s2: "s2 = s1\<lparr>ADCSRA := (ADCSRA s1 AND NOT (BV ADEN)) AND NOT (BV ADSC), adc_busy := 0\<rparr>"
    by (simp add: s2_def write_ADCSRA_def)
  have q: "quiet s0 s1"
    using read_adc_props(1) [OF r] by (simp add: s0_def)
  then obtain xs where xs: "log s1 = log s0 @ xs"
    and xs_obs: "\<forall>x \<in> set xs. pin_high x = bit (PORTA s0) PORTA7 \<and> in_call x = in_readVcc s0 \<and>
           \<not> pin_event (act x)"
    by (auto simp add: quiet_def)
  from q show "PORTA s' = PORTA s"
    by (simp add: s' s2 emit_def quiet_def s0_def)
  show "\<not> bit (ADCSRA s') ADEN"
    by (simp add: s' s2 emit_def bit_regs)
  show "\<not> bit (ADCSRA s') ADSC"
    by (simp add: s' s2 emit_def bit_regs)
  show "\<not> in_readVcc s'"
    by (simp add: s' emit_def)
  from q show "adc_sample s' = adc_sample s"
    by (simp add: s' s2 emit_def quiet_def s0_def)
  from q show "adc_cycles s' = adc_cycles s"
    by (simp add: s' s2 emit_def quiet_def s0_def)
  show "ucast (ucast v :: uint8_t) = v"
    by (simp add: v ucast_up_ucast_id is_up)
  have "log s' = log s @ (\<lparr>act = Call, pin_high = bit (PORTA s) PORTA7,
        adc_on = bit (ADCSRA s) ADEN, in_call = True\<rparr> # xs @
      [\<lparr>act = Return (ucast x), pin_high = bit (PORTA s1) PORTA7, adc_on = False,
        in_call = False\<rparr>])"
    by (simp add: s' s2 emit_def xs s0_def bit_regs)
  moreover from q have "PORTA s1 = PORTA s"
    by (simp add: quiet_def s0_def emit_def)
  moreover from xs_obs have "\<forall>x \<in> set xs. pin_high x = bit (PORTA s) PORTA7 \<and> in_call x \<and>
           \<not> pin_event (act x)"
    by (simp add: s0_def emit_def)
  ultimately show "\<exists>xs. log s' = log s @ xs \<and>
           (\<forall>x \<in> set xs. pin_high x = bit (PORTA s) PORTA7 \<and> \<not> pin_event (act x) \<and>
              (in_call x \<or> \<not> adc_on x))"
    by auto
qed

section \<open>The blink loop\<close>

lemma pin_pulse: "((x :: uint8_t) OR BV PORTA7) AND NOT (BV PORTA7) = x AND NOT (BV PORTA7)"
  by (rule bit_word_eqI) (auto simp add: bit_regs)

lemma blink_step:
  assumes "\<not> bit (ADCSRA s) ADSC"
  shows "delay_ms 250 (write_PORTA (PORTA (delay_ms 250 (write_PORTA (PORTA s OR BV PORTA7) s)) AND NOT (BV PORTA7))
           (delay_ms 250 (write_PORTA (PORTA s OR BV PORTA7) s))) =
         s\<lparr>PORTA := PORTA s AND NOT (BV PORTA7),
           log := log s @ pulse_obs (bit (ADCSRA s) ADEN) (in_readVcc s)\<rparr>"
  using assms
  by (simp add: delay_ms_idle write_PORTA_def emit_def pulse_obs_def pin_pulse)
     (simp add: bit_regs)

lemma blink_loop_idle:
  "\<not> bit (ADCSRA s) ADSC \<Longrightarrow>
   blink_loop i vcc s =
     (if i < uint vcc
      then s\<lparr>PORTA := PORTA s AND NOT (BV PORTA7),
             log := log s @ concat (replicate (nat (uint vcc - i))
               (pulse_obs (bit (ADCSRA s) ADEN) (in_readVcc s)))\<rparr>
      else s)"
proof (induction i vcc s rule: blink_loop.induct)
  case (1 i vcc s)
  show ?case
  proof (cases "i < uint vcc")
    case False
    then show ?thesis by (simp add: blink_loop.simps [of i vcc s])
  next
    case True
    define s4 where "s4 = s\<lparr>PORTA := PORTA s AND NOT (BV PORTA7),
           log := log s @ pulse_obs (bit (ADCSRA s) ADEN) (in_readVcc s)\<rparr>"
    have step: "blink_loop i vcc s = blink_loop (i + 1) vcc s4"
      using True blink_step [OF "1.prems"]
      by (simp add: blink_loop.simps [of i vcc s] Let_def s4_def)
    have idle4: "\<not> bit (ADCSRA s4) ADSC"
      using "1.prems" by (simp add: s4_def)
    have ih: "blink_loop (i + 1) vcc s4 =
     (if i + 1 < uint vcc
      then s4\<lparr>PORTA := PORTA s4 AND NOT (BV PORTA7),
             log := log s4 @ concat (replicate (nat (uint vcc - (i + 1)))
               (pulse_obs (bit (ADCSRA s4) ADEN) (in_readVcc s4)))\<rparr>
      else s4)"
      using "1.IH" [OF True refl refl refl refl] idle4 blink_step [OF "1.prems"]
      by (simp add: s4_def)
    have n: "nat (uint vcc - i) = Suc (nat (uint vcc - (i + 1)))"
      using True by simp
    have last: "\<not> i + 1 < uint vcc \<Longrightarrow> nat (uint vcc - (i + 1)) = 0"
      by simp
    have "blink_loop i vcc s =
     (if i + 1 < uint vcc
      then s4\<lparr>PORTA := PORTA s4 AND NOT (BV PORTA7),
             log := log s4 @ concat (replicate (nat (uint vcc - (i + 1)))
               (pulse_obs (bit (ADCSRA s4) ADEN) (in_readVcc s4)))\<rparr>
      else s4)"
      by (simp only: step ih)
    then show ?thesis
      using True
      by (cases "i + 1 < uint vcc") (simp_all add: n last s4_def)
  qed
qed

section \<open>One round of the loop, after the call\<close>

lemma whole_volts: "nat (uint ((d :: uint8_t) div 10) - 0) = unat d div 10"
  by (simp add: unat_div)

lemma whole_volts_pos: "(0 < uint ((d :: uint8_t) div 10)) = (0 < unat d div 10)"
proof -
  have "unat (d div 10) = unat d div 10" by (simp add: unat_div)
  moreover have "(0 < uint (d div 10)) = (0 < unat (d div 10))"
    using unat_eq_nat_uint [of "d div 10"] by arith
  ultimately show ?thesis by simp
qed

lemma unat_widen: "unat (ucast (x :: uint8_t) :: uint16_t) = unat x"
  by (simp add: unsigned_ucast_eq take_bit_nat_eq_self_iff)
    (rule less_trans [OF unsigned_less], simp)

lemma unat_narrow:
  assumes "ucast (ucast v :: uint8_t) = (v :: uint16_t)"
  shows "unat (ucast v :: uint8_t) = unat v"
proof -
  have "unat v = unat (ucast (ucast v :: uint8_t) :: uint16_t)"
    by (simp add: assms)
  then show ?thesis by (simp only: unat_widen)
qed

lemma indicate_idle:
  assumes "\<not> bit (ADCSRA s) ADSC"
  shows "indicate d s =
     (if 0 < unat d div 10
      then s\<lparr>PORTA := PORTA s AND NOT (BV PORTA7),
             log := log s @ concat (replicate (unat d div 10)
               (pulse_obs (bit (ADCSRA s) ADEN) (in_readVcc s)))\<rparr>
      else s)"
proof -
  have "indicate d s = blink_loop 0 (d div 10) s"
    by (simp add: indicate_def)
  also have "\<dots> =
     (if 0 < uint (d div 10)
      then s\<lparr>PORTA := PORTA s AND NOT (BV PORTA7),
             log := log s @ concat (replicate (nat (uint (d div 10) - 0))
               (pulse_obs (bit (ADCSRA s) ADEN) (in_readVcc s)))\<rparr>
      else s)"
    using assms by (rule blink_loop_idle)
  finally show ?thesis
    by (simp only: whole_volts whole_volts_pos)
qed

lemma new_obs_append: "log s' = log s @ xs \<Longrightarrow> new_obs s s' = xs"
  by (simp add: new_obs_def)

lemma blinks_append: "blinks (xs @ ys) = blinks xs + blinks ys"
  by (simp add: blinks_def)

lemma blinks_quiet: "\<forall>x \<in> set xs. \<not> pin_event (act x) \<Longrightarrow> blinks xs = 0"
  by (auto simp add: blinks_def filter_empty_conv)

lemma blinks_pulses: "blinks (concat (replicate k (pulse_obs a c))) = k"
  by (induction k) (simp_all add: blinks_def pulse_obs_def)

lemma act_pulses:
  "map act (concat (replicate k (pulse_obs a c))) =
   concat (replicate k [Pin True, Delay_ms 250, Pin False, Delay_ms 250])"
  by (induction k) (simp_all add: pulse_obs_def)

lemma loop_body_returns:
  assumes "loop_body s = Inr s'"
  obtains v s1 where "readVccVoltage s = Inr (v, s1)"
    and "s' = emit (Delay_ms 1000) (indicate (ucast v) s1)"
proof -
  from assms obtain v s1 where r: "readVccVoltage s = Inr (v, s1)"
    and s': "s' = delay_ms 1000 (indicate (ucast v) s1)"
    by (cases "readVccVoltage s") (auto simp add: loop_body_def Let_def)
  have idle: "\<not> bit (ADCSRA s1) ADSC"
    using r by (rule readVccVoltage_returns)
  then have "\<not> bit (ADCSRA (indicate (ucast v) s1)) ADSC"
    by (simp add: indicate_idle)
  then have "s' = emit (Delay_ms 1000) (indicate (ucast v) s1)"
    by (simp add: s' delay_ms_idle)
  with r show thesis by (rule that)
qed

text \<open>The observations of one round after the call has returned.\<close>

lemma round_obs:
  assumes "loop_body s = Inr s'"
  shows "\<exists>v s1. readVccVoltage s = Inr (v, s1) \<and>
     log s' = log s1 @ concat (replicate (unat v div 10) (pulse_obs False False)) @
       [\<lparr>act = Delay_ms 1000, pin_high = (bit (PORTA s) PORTA7 \<and> unat v div 10 = 0),
         adc_on = False, in_call = False\<rparr>] \<and>
     bit (PORTA s') PORTA7 = (bit (PORTA s) PORTA7 \<and> unat v div 10 = 0) \<and>
     \<not> bit (ADCSRA s') ADEN"
proof -
  from assms obtain v s1 where r: "readVccVoltage s = Inr (v, s1)"
    and s': "s' = emit (Delay_ms 1000) (indicate (ucast v) s1)"
    by (rule loop_body_returns)
  note ret = readVccVoltage_returns [OF r]
  have "unat (ucast v :: uint8_t) = unat v"
    using ret(8) by (rule unat_narrow)
  then have k: "unat (ucast v :: uint8_t) div 10 = unat v div 10" by simp
  have "log s' = log s1 @ concat (replicate (unat v div 10) (pulse_obs False False)) @
       [\<lparr>act = Delay_ms 1000, pin_high = (bit (PORTA s) PORTA7 \<and> unat v div 10 = 0),
         adc_on = False, in_call = False\<rparr>]"
    using ret(1-4) by (simp add: s' indicate_idle k emit_def) (simp add: bit_regs)
  moreover have "bit (PORTA s') PORTA7 = (bit (PORTA s) PORTA7 \<and> unat v div 10 = 0)"
    using ret(1-4) by (simp add: s' indicate_idle k emit_def) (simp add: bit_regs)
  moreover have "\<not> bit (ADCSRA s') ADEN"
    using ret(1-4) by (simp add: s' indicate_idle k emit_def)
  ultimately show ?thesis using r by (intro exI [of _ v] exI [of _ s1] conjI) simp_all
qed

section \<open>Blinks of the loop in any state\<close>

lemma quiet_blinks: "quiet s s' \<Longrightarrow> \<exists>xs. log s' = log s @ xs \<and> blinks xs = 0"
  by (auto simp add: quiet_def blinks_quiet)

lemma blink_loop_blinks:
  "\<exists>xs. log (blink_loop i vcc s) = log s @ xs \<and> blinks xs = nat (uint vcc - i)"
proof (induction i vcc s rule: blink_loop.induct)
  case (1 i vcc s)
  show ?case
  proof (cases "i < uint vcc")
    case False
    then show ?thesis by (simp add: blink_loop.simps [of i vcc s] blinks_def)
  next
    case True
    define s1 where "s1 = write_PORTA (PORTA s OR BV PORTA7) s"
    define s2 where "s2 = delay_ms 250 s1"
    define s3 where "s3 = write_PORTA (PORTA s2 AND NOT (BV PORTA7)) s2"
    define s4 where "s4 = delay_ms 250 s3"
    have step: "blink_loop i vcc s = blink_loop (i + 1) vcc s4"
      using True by (simp add: blink_loop.simps [of i vcc s] Let_def s1_def s2_def s3_def s4_def)
    obtain x1 where l1: "log s1 = log s @ [x1]" and a1: "act x1 = Pin True"
      by (simp add: s1_def write_PORTA_def emit_def bit_regs)
    obtain xs2 where l2: "log s2 = log s1 @ xs2" and b2: "blinks xs2 = 0"
      using quiet_blinks [OF quiet_delay_ms [of s1 250]] by (auto simp add: s2_def)
    obtain x3 where l3: "log s3 = log s2 @ [x3]" and a3: "act x3 = Pin False"
      by (simp add: s3_def write_PORTA_def emit_def bit_regs)
    obtain xs4 where l4: "log s4 = log s3 @ xs4" and b4: "blinks xs4 = 0"
      using quiet_blinks [OF quiet_delay_ms [of s3 250]] by (auto simp add: s4_def)
    obtain xs where l: "log (blink_loop (i + 1) vcc s4) = log s4 @ xs"
      and b: "blinks xs = nat (uint vcc - (i + 1))"
      using "1.IH" [OF True s1_def s2_def s3_def s4_def] by blast
    have b1: "blinks [x1] = 1" and b3: "blinks [x3] = 0"
      by (simp_all add: blinks_def a1 a3)
    have "log (blink_loop i vcc s) = log s @ ([x1] @ xs2 @ [x3] @ xs4 @ xs)"
      by (simp add: step l l4 l3 l2 l1)
    moreover have "blinks ([x1] @ xs2 @ [x3] @ xs4 @ xs) = 1 + nat (uint vcc - (i + 1))"
      by (simp only: blinks_append b b1 b2 b3 b4)
    moreover have "1 + nat (uint vcc - (i + 1)) = nat (uint vcc - i)"
      using True by simp
    ultimately show ?thesis by (intro exI [of _ "[x1] @ xs2 @ [x3] @ xs4 @ xs"]) simp
  qed
qed

lemma indicate_blinks: "blinks (new_obs s (indicate d s)) = unat d div 10"
proof -
  obtain xs where "log (indicate d s) = log s @ xs" and "blinks xs = nat (uint (d div 10) - 0)"
    using blink_loop_blinks [of 0 "d div 10" s] by (auto simp add: indicate_def)
  then show ?thesis
    by (simp only: new_obs_append whole_volts)
qed

section \<open>One round and many\<close>

lemma in_pulses: "x \<in> set (concat (replicate k (pulse_obs a c))) \<Longrightarrow> x \<in> set (pulse_obs a c)"
  by (induction k) auto

lemma pulse_member:
  assumes "x \<in> set (pulse_obs a c)"
  shows "adc_on x = a" and "in_call x = c" and "act x \<noteq> Delay_ms 1000"
  using assms by (auto simp add: pulse_obs_def)

lemma round_adc:
  assumes "loop_body s = Inr s'"
  shows "\<exists>xs. log s' = log s @ xs \<and> (\<forall>x \<in> set xs. in_call x \<or> \<not> adc_on x) \<and>
           \<not> bit (ADCSRA s') ADEN"
proof -
  from round_obs [OF assms] obtain v s1 where r: "readVccVoltage s = Inr (v, s1)"
    and l: "log s' = log s1 @ concat (replicate (unat v div 10) (pulse_obs False False)) @
       [\<lparr>act = Delay_ms 1000, pin_high = (bit (PORTA s) PORTA7 \<and> unat v div 10 = 0),
         adc_on = False, in_call = False\<rparr>]"
    and off: "\<not> bit (ADCSRA s') ADEN"
    by blast
  from readVccVoltage_returns(7) [OF r] obtain xs where xs: "log s1 = log s @ xs"
    and c: "\<forall>x \<in> set xs. pin_high x = bit (PORTA s) PORTA7 \<and> \<not> pin_event (act x) \<and>
              (in_call x \<or> \<not> adc_on x)"
    by blast
  define ys where "ys = xs @ concat (replicate (unat v div 10) (pulse_obs False False)) @
       [\<lparr>act = Delay_ms 1000, pin_high = (bit (PORTA s) PORTA7 \<and> unat v div 10 = 0),
         adc_on = False, in_call = False\<rparr>]"
  have "log s' = log s @ ys" by (simp add: l xs ys_def)
  moreover have "\<forall>x \<in> set ys. in_call x \<or> \<not> adc_on x"
    using c by (auto simp add: ys_def dest!: in_pulses dest: pulse_member)
  ultimately show ?thesis using off by blast
qed

lemma round_pin:
  assumes "loop_body s = Inr s'"
  shows "\<exists>xs. log s' = log s @ xs \<and>
           (\<forall>x \<in> set xs. (in_call x \<or> act x = Delay_ms 1000) \<and> pin_high x \<longrightarrow> bit (PORTA s) PORTA7) \<and>
           (bit (PORTA s') PORTA7 \<longrightarrow> bit (PORTA s) PORTA7)"
proof -
  from round_obs [OF assms] obtain v s1 where r: "readVccVoltage s = Inr (v, s1)"
    and l: "log s' = log s1 @ concat (replicate (unat v div 10) (pulse_obs False False)) @
       [\<lparr>act = Delay_ms 1000, pin_high = (bit (PORTA s) PORTA7 \<and> unat v div 10 = 0),
         adc_on = False, in_call = False\<rparr>]"
    and p: "bit (PORTA s') PORTA7 = (bit (PORTA s) PORTA7 \<and> unat v div 10 = 0)"
    by blast
  from readVccVoltage_returns(7) [OF r] obtain xs where xs: "log s1 = log s @ xs"
    and c: "\<forall>x \<in> set xs. pin_high x = bit (PORTA s) PORTA7 \<and> \<not> pin_event (act x) \<and>
              (in_call x \<or> \<not> adc_on x)"
    by blast
  define ys where "ys = xs @ concat (replicate (unat v div 10) (pulse_obs False False)) @
       [\<lparr>act = Delay_ms 1000, pin_high = (bit (PORTA s) PORTA7 \<and> unat v div 10 = 0),
         adc_on = False, in_call = False\<rparr>]"
  have "log s' = log s @ ys" by (simp add: l xs ys_def)
  moreover have "\<forall>x \<in> set ys. (in_call x \<or> act x = Delay_ms 1000) \<and> pin_high x \<longrightarrow> bit (PORTA s) PORTA7"
    using c by (auto simp add: ys_def dest!: in_pulses dest: pulse_member)
  ultimately show ?thesis using p by blast
qed

lemma main_loop_adc:
  "main_loop n s = Inr s' \<Longrightarrow>
   \<exists>xs. log s' = log s @ xs \<and> (\<forall>x \<in> set xs. in_call x \<or> \<not> adc_on x)"
proof (induction n arbitrary: s)
  case 0
  then show ?case by simp
next
  case (Suc n)
  then obtain s1 where b: "loop_body s = Inr s1" and m: "main_loop n s1 = Inr s'"
    by (cases "loop_body s") simp_all
  from round_adc [OF b] obtain xs where "log s1 = log s @ xs"
    and "\<forall>x \<in> set xs. in_call x \<or> \<not> adc_on x"
    by blast
  moreover from Suc.IH [OF m] obtain ys where "log s' = log s1 @ ys"
    and "\<forall>x \<in> set ys. in_call x \<or> \<not> adc_on x"
    by blast
  ultimately show ?case
    by (intro exI [of _ "xs @ ys"]) auto
qed

lemma main_loop_pin:
  "main_loop n s = Inr s' \<Longrightarrow> \<not> bit (PORTA s) PORTA7 \<Longrightarrow>
   \<not> bit (PORTA s') PORTA7 \<and>
   (\<exists>xs. log s' = log s @ xs \<and>
      (\<forall>x \<in> set xs. in_call x \<or> act x = Delay_ms 1000 \<longrightarrow> \<not> pin_high x))"
proof (induction n arbitrary: s)
  case 0
  then show ?case by simp
next
  case (Suc n)
  then obtain s1 where b: "loop_body s = Inr s1" and m: "main_loop n s1 = Inr s'"
    by (cases "loop_body s") simp_all
  from round_pin [OF b] Suc.prems(2) obtain xs where xs: "log s1 = log s @ xs"
    and px: "\<forall>x \<in> set xs. in_call x \<or> act x = Delay_ms 1000 \<longrightarrow> \<not> pin_high x"
    and low: "\<not> bit (PORTA s1) PORTA7"
    by blast
  from Suc.IH [OF m low] obtain ys where "\<not> bit (PORTA s') PORTA7"
    and "log s' = log s1 @ ys"
    and "\<forall>x \<in> set ys. in_call x \<or> act x = Delay_ms 1000 \<longrightarrow> \<not> pin_high x"
    by blast
  with xs px show ?case
    by (intro conjI exI [of _ "xs @ ys"]) auto
qed

lemma round_blinks_eq: "round_blinks s = map_sum id (\<lambda>d. d div 10) (decivolts s)"
proof (cases "loop_body s")
  case (Inl e)
  then have "readVccVoltage s = Inl e"
    by (cases "readVccVoltage s") (auto simp add: loop_body_def Let_def)
  with Inl show ?thesis
    by (simp add: round_blinks_def decivolts_def)
next
  case (Inr s')
  from round_obs [OF Inr] obtain v s1 where r: "readVccVoltage s = Inr (v, s1)"
    and l: "log s' = log s1 @ concat (replicate (unat v div 10) (pulse_obs False False)) @
       [\<lparr>act = Delay_ms 1000, pin_high = (bit (PORTA s) PORTA7 \<and> unat v div 10 = 0),
         adc_on = False, in_call = False\<rparr>]"
    by blast
  from readVccVoltage_returns(7) [OF r] obtain xs where xs: "log s1 = log s @ xs"
    and c: "\<forall>x \<in> set xs. pin_high x = bit (PORTA s) PORTA7 \<and> \<not> pin_event (act x) \<and>
              (in_call x \<or> \<not> adc_on x)"
    by blast
  from c have "blinks xs = 0" by (intro blinks_quiet) simp
  moreover have "new_obs s s' = xs @ concat (replicate (unat v div 10) (pulse_obs False False)) @
       [\<lparr>act = Delay_ms 1000, pin_high = (bit (PORTA s) PORTA7 \<and> unat v div 10 = 0),
         adc_on = False, in_call = False\<rparr>]"
    by (rule new_obs_append) (simp add: l xs)
  ultimately have "blinks (new_obs s s') = unat v div 10"
    by (simp add: blinks_append blinks_pulses) (simp add: blinks_def)
  with Inr r show ?thesis
    by (simp add: round_blinks_def decivolts_def)
qed

section \<open>The events of a call\<close>

lemma write_ADCSRA_begin:
  "\<not> bit (ADCSRA s) ADSC \<Longrightarrow> bit v ADEN \<Longrightarrow> bit v ADSC \<Longrightarrow>
   write_ADCSRA v s =
     emit (ConvStart (adc_count s)) (s\<lparr>ADCSRA := v, adc_busy := adc_cycles s (adc_count s)\<rparr>)"
  by (simp add: write_ADCSRA_def)

lemma write_ADCSRA_running:
  "bit (ADCSRA s) ADSC \<Longrightarrow> bit v ADEN \<Longrightarrow> write_ADCSRA v s = s\<lparr>ADCSRA := v OR BV ADSC\<rparr>"
  by (simp add: write_ADCSRA_def)

lemma act_emit: "map act (log (emit e s)) = map act (log s) @ [e]"
  by (simp add: emit_def)

lemma act_adc_complete:
  "map act (log (adc_complete s)) =
   map act (log s) @ [ConvDone (adc_count s) (adc_sample s (adc_count s))]"
  by (simp add: adc_complete_def emit_def Let_def)

lemma act_new_obs: "map act (log s') = map act (log s) @ es \<Longrightarrow> map act (new_obs s s') = es"
proof -
  assume a: "map act (log s') = map act (log s) @ es"
  have "map act (new_obs s s') = drop (length (map act (log s))) (map act (log s'))"
    by (simp add: new_obs_def drop_map)
  then show ?thesis by (simp only: a append_eq_conv_conj drop_append) simp
qed

text \<open>
  A call made while the converter is idle: the first thing it does is start a
  conversion, and only then does the settling delay begin.
\<close>

lemma read_adc_acts:
  assumes idle: "\<not> bit (ADCSRA s) ADSC" and r: "read_adc s = (adc, s')"
  shows "map act (log s') = map act (log s) @
    (if adc_cycles s (adc_count s) \<le> 1000
     then [Call, ConvStart (adc_count s), Delay_ms 1,
           ConvDone (adc_count s) (adc_sample s (adc_count s)),
           ConvStart (adc_count s + 1),
           ConvDone (adc_count s + 1) (adc_sample s (adc_count s + 1)),
           ConvStart (adc_count s + 2),
           ConvDone (adc_count s + 2) (adc_sample s (adc_count s + 2))]
     else [Call, ConvStart (adc_count s), Delay_ms 1,
           ConvDone (adc_count s) (adc_sample s (adc_count s)),
           ConvStart (adc_count s + 1),
           ConvDone (adc_count s + 1) (adc_sample s (adc_count s + 1))])"
proof -
  define k where "k = adc_count s"
  define s0 where "s0 = emit Call (s\<lparr>in_readVcc := True\<rparr>)"
  define s1 where "s1 = s0\<lparr>ADMUX := 0b00100001\<rparr>"
  define s2 where "s2 = write_ADCSRA (ADCSRA s1 OR (BV ADEN OR BV ADSC OR BV ADPS1 OR BV ADPS0)) s1"
  define s3 where "s3 = delay_ms 1 s2"
  define s4 where "s4 = write_ADCSRA (ADCSRA s3 OR BV ADSC) s3"
  define s5 where "s5 = wait_ADSC s4"
  define s6 where "s6 = write_ADCSRA (ADCSRA s5 OR BV ADSC) s5"
  define s7 where "s7 = wait_ADSC s6"
  have "read_adc s = (push_bit 8 (ucast (ADCH s7) :: uint16_t) OR ucast (ADCL s7), s7)"
    unfolding read_adc_def Let_def s0_def s1_def s2_def s3_def s4_def s5_def s6_def s7_def
    by (rule refl)
  with r have s': "s' = s7" by auto
  have idle1: "\<not> bit (ADCSRA s1) ADSC"
    using idle by (simp add: s1_def s0_def emit_def)
  have s2: "s2 = emit (ConvStart (adc_count s1))
      (s1\<lparr>ADCSRA := ADCSRA s1 OR (BV ADEN OR BV ADSC OR BV ADPS1 OR BV ADPS0),
          adc_busy := adc_cycles s1 (adc_count s1)\<rparr>)"
    unfolding s2_def using idle1 by (rule write_ADCSRA_begin) (simp_all add: bit_regs)
  have f2: "map act (log s2) = map act (log s) @ [Call, ConvStart k]"
    "bit (ADCSRA s2) ADEN" "bit (ADCSRA s2) ADSC" "adc_busy s2 = adc_cycles s k"
    "adc_count s2 = k" "adc_sample s2 = adc_sample s" "adc_cycles s2 = adc_cycles s"
    by (simp_all add: s2 s1_def s0_def emit_def k_def bit_regs)
  define d where "d = emit (Delay_ms 1) s2"
  have fd: "map act (log d) = map act (log s) @ [Call, ConvStart k, Delay_ms 1]"
    "bit (ADCSRA d) ADEN" "bit (ADCSRA d) ADSC" "adc_busy d = adc_cycles s k"
    "adc_count d = k" "adc_sample d = adc_sample s" "adc_cycles d = adc_cycles s"
    using f2 by (simp_all add: d_def emit_def)
  have "s3 = adc_advance 1000 d"
    unfolding s3_def delay_ms_def d_def F_CPU_def by simp
  then have s3: "s3 = (if adc_cycles s k \<le> 1000 then adc_complete d
                  else d\<lparr>adc_busy := adc_cycles s k - 1000\<rparr>)"
    using fd by (simp add: adc_advance_def)
  show ?thesis
  proof (cases "adc_cycles s k \<le> 1000")
    case True
    with s3 have s3': "s3 = adc_complete d" by simp
    have f3: "map act (log s3) = map act (log s) @
        [Call, ConvStart k, Delay_ms 1, ConvDone k (adc_sample s k)]"
      "bit (ADCSRA s3) ADEN" "\<not> bit (ADCSRA s3) ADSC"
      "adc_count s3 = Suc k" "adc_sample s3 = adc_sample s" "adc_cycles s3 = adc_cycles s"
      using fd by (simp_all add: s3' act_adc_complete adc_complete_ADEN adc_complete_idle)
        (simp_all add: adc_complete_def emit_def Let_def)
    have s4: "s4 = emit (ConvStart (adc_count s3))
        (s3\<lparr>ADCSRA := ADCSRA s3 OR BV ADSC, adc_busy := adc_cycles s3 (adc_count s3)\<rparr>)"
      unfolding s4_def using f3(3) by (rule write_ADCSRA_begin) (use f3(2) in \<open>simp_all add: bit_regs\<close>)
    have f4: "map act (log s4) = map act (log s) @
        [Call, ConvStart k, Delay_ms 1, ConvDone k (adc_sample s k), ConvStart (Suc k)]"
      "bit (ADCSRA s4) ADEN" "bit (ADCSRA s4) ADSC"
      "adc_count s4 = Suc k" "adc_sample s4 = adc_sample s" "adc_cycles s4 = adc_cycles s"
      using f3 by (simp_all add: s4 emit_def bit_regs)
    have s5: "s5 = adc_complete s4"
      using f4(3) by (simp add: s5_def wait_ADSC_eq)
    have f5: "map act (log s5) = map act (log s) @
        [Call, ConvStart k, Delay_ms 1, ConvDone k (adc_sample s k), ConvStart (Suc k),
         ConvDone (Suc k) (adc_sample s (Suc k))]"
      "bit (ADCSRA s5) ADEN" "\<not> bit (ADCSRA s5) ADSC"
      "adc_count s5 = Suc (Suc k)" "adc_sample s5 = adc_sample s" "adc_cycles s5 = adc_cycles s"
      using f4 by (simp_all add: s5 act_adc_complete adc_complete_ADEN adc_complete_idle)
        (simp_all add: adc_complete_def emit_def Let_def)
    have s6: "s6 = emit (ConvStart (adc_count s5))
        (s5\<lparr>ADCSRA := ADCSRA s5 OR BV ADSC, adc_busy := adc_cycles s5 (adc_count s5)\<rparr>)"
      unfolding s6_def using f5(3) by (rule write_ADCSRA_begin) (use f5(2) in \<open>simp_all add: bit_regs\<close>)
    have f6: "map act (log s6) = map act (log s) @
        [Call, ConvStart k, Delay_ms 1, ConvDone k (adc_sample s k), ConvStart (Suc k),
         ConvDone (Suc k) (adc_sample s (Suc k)), ConvStart (Suc (Suc k))]"
      "bit (ADCSRA s6) ADSC"
      "adc_count s6 = Suc (Suc k)" "adc_sample s6 = adc_sample s"
      using f5 by (simp_all add: s6 emit_def bit_regs)
    have s7: "s7 = adc_complete s6"
      using f6(2) by (simp add: s7_def wait_ADSC_eq)
    have "map act (log s7) = map act (log s) @
        [Call, ConvStart k, Delay_ms 1, ConvDone k (adc_sample s k), ConvStart (Suc k),
         ConvDone (Suc k) (adc_sample s (Suc k)), ConvStart (Suc (Suc k)),
         ConvDone (Suc (Suc k)) (adc_sample s (Suc (Suc k)))]"
      using f6 by (simp add: s7 act_adc_complete)
    with True show ?thesis by (simp add: s' k_def)
  next
    case False
    with s3 have s3': "s3 = d\<lparr>adc_busy := adc_cycles s k - 1000\<rparr>" by simp
    have f3: "map act (log s3) = map act (log s) @ [Call, ConvStart k, Delay_ms 1]"
      "bit (ADCSRA s3) ADEN" "bit (ADCSRA s3) ADSC"
      "adc_count s3 = k" "adc_sample s3 = adc_sample s" "adc_cycles s3 = adc_cycles s"
      using fd by (simp_all add: s3')
    have s4: "s4 = s3\<lparr>ADCSRA := (ADCSRA s3 OR BV ADSC) OR BV ADSC\<rparr>"
      unfolding s4_def using f3(3) by (rule write_ADCSRA_running) (use f3(2) in \<open>simp add: bit_regs\<close>)
    have f4: "map act (log s4) = map act (log s) @ [Call, ConvStart k, Delay_ms 1]"
      "bit (ADCSRA s4) ADEN" "bit (ADCSRA s4) ADSC"
      "adc_count s4 = k" "adc_sample s4 = adc_sample s" "adc_cycles s4 = adc_cycles s"
      using f3 by (simp_all add: s4 bit_regs)
    have s5: "s5 = adc_complete s4"
      using f4(3) by (simp add: s5_def wait_ADSC_eq)
    have f5: "map act (log s5) = map act (log s) @
        [Call, ConvStart k, Delay_ms 1, ConvDone k (adc_sample s k)]"
      "bit (ADCSRA s5) ADEN" "\<not> bit (ADCSRA s5) ADSC"
      "adc_count s5 = Suc k" "adc_sample s5 = adc_sample s" "adc_cycles s5 = adc_cycles s"
      using f4 by (simp_all add: s5 act_adc_complete adc_complete_ADEN adc_complete_idle)
        (simp_all add: adc_complete_def emit_def Let_def)
    have s6: "s6 = emit (ConvStart (adc_count s5))
        (s5\<lparr>ADCSRA := ADCSRA s5 OR BV ADSC, adc_busy := adc_cycles s5 (adc_count s5)\<rparr>)"
      unfolding s6_def using f5(3) by (rule write_ADCSRA_begin) (use f5(2) in \<open>simp_all add: bit_regs\<close>)
    have f6: "map act (log s6) = map act (log s) @
        [Call, ConvStart k, Delay_ms 1, ConvDone k (adc_sample s k), ConvStart (Suc k)]"
      "bit (ADCSRA s6) ADSC"
      "adc_count s6 = Suc k" "adc_sample s6 = adc_sample s"
      using f5 by (simp_all add: s6 emit_def bit_regs)
    have s7: "s7 = adc_complete s6"
      using f6(2) by (simp add: s7_def wait_ADSC_eq)
    have "map act (log s7) = map act (log s) @
        [Call, ConvStart k, Delay_ms 1, ConvDone k (adc_sample s k), ConvStart (Suc k),
         ConvDone (Suc k) (adc_sample s (Suc k))]"
      using f6 by (simp add: s7 act_adc_complete)
    with False show ?thesis by (simp add: s' k_def)
  qed
qed

lemma readVccVoltage_acts:
  assumes idle: "\<not> bit (ADCSRA s) ADSC" and r: "readVccVoltage s = Inr (v, s')"
  shows "map act (log s') = map act (log s) @
    (if adc_cycles s (adc_count s) \<le> 1000
     then [Call, ConvStart (adc_count s), Delay_ms 1,
           ConvDone (adc_count s) (adc_sample s (adc_count s)),
           ConvStart (adc_count s + 1),
           ConvDone (adc_count s + 1) (adc_sample s (adc_count s + 1)),
           ConvStart (adc_count s + 2),
           ConvDone (adc_count s + 2) (adc_sample s (adc_count s + 2))]
     else [Call, ConvStart (adc_count s), Delay_ms 1,
           ConvDone (adc_count s) (adc_sample s (adc_count s)),
           ConvStart (adc_count s + 1),
           ConvDone (adc_count s + 1) (adc_sample s (adc_count s + 1))]) @ [Return v]"
proof -
  obtain adc s1 where a: "read_adc s = (adc, s1)" by (cases "read_adc s")
  from r a obtain x where x: "vccx10_of adc = Inr x"
    by (cases "vccx10_of adc") (simp_all add: readVccVoltage_def)
  from r a x have "s' = emit (Return v)
      (write_ADCSRA (ADCSRA s1 AND NOT (BV ADEN)) s1\<lparr>in_readVcc := False\<rparr>)"
    by (auto simp add: readVccVoltage_def Let_def)
  then have "map act (log s') = map act (log s1) @ [Return v]"
    by (simp add: emit_def write_ADCSRA_def bit_regs)
  then show ?thesis
    by (simp only: read_adc_acts [OF idle a] append_assoc)
qed

lemma bench_call:
  assumes "r \<noteq> 0" and "c \<le> 1000"
  shows "\<exists>v s'. readVccVoltage (bench r c) = Inr (v, s') \<and>
     unat v = (11264 div unat r) mod 256 \<and>
     map act (log s') = [Call, ConvStart 0, Delay_ms 1, ConvDone 0 r, ConvStart 1,
       ConvDone 1 r, ConvStart 2, ConvDone 2 r, Return v]"
proof -
  have "unat (raw_sample (bench r c)) = unat r"
    by (rule unat_raw_sample_bench)
  moreover from assms(1) have "unat r \<noteq> 0"
    by (simp add: unat_eq_0)
  ultimately have nz: "raw_sample (bench r c) \<noteq> 0" by auto
  from readVccVoltage_nonzero [OF nz] obtain s' where
    r: "readVccVoltage (bench r c) =
      Inr (ucast (ucast ((11 * 1024) div raw_sample (bench r c)) :: uint8_t), s')"
    by blast
  define v :: uint16_t where "v = ucast (ucast ((11 * 1024) div raw_sample (bench r c)) :: uint8_t)"
  have "unat v = (11264 div unat r) mod 256"
    by (simp add: v_def vccx10_value unat_raw_sample_bench)
  moreover have idle: "\<not> bit (ADCSRA (bench r c)) ADSC"
    by (simp add: bench_def)
  have "map act (log s') = [Call, ConvStart 0, Delay_ms 1, ConvDone 0 r, ConvStart 1,
       ConvDone 1 r, ConvStart 2, ConvDone 2 r, Return v]"
    using readVccVoltage_acts [OF idle r [folded v_def]] assms(2)
    by (simp add: bench_def)
  ultimately show ?thesis using r [folded v_def]
    by (intro exI [of _ v] exI [of _ s'] conjI)
qed

lemma unat_50: "unat (v :: uint16_t) = 50 \<Longrightarrow> v = 50"
  by (simp add: word_unat_eq_iff)

section \<open>The loop keeps running\<close>

lemma raw_sample_env: "\<exists>j. raw_sample s = ucast (adc_sample s j)"
proof -
  obtain adc s' where r: "read_adc s = (adc, s')" by (cases "read_adc s")
  then show ?thesis
    using read_adc_props(4) [OF r] by (auto simp add: raw_sample_def)
qed

lemma loop_body_total:
  assumes "\<forall>k. adc_sample s k \<noteq> 0"
  shows "\<exists>s'. loop_body s = Inr s' \<and> adc_sample s' = adc_sample s"
proof -
  obtain j where j: "raw_sample s = ucast (adc_sample s j)"
    using raw_sample_env by blast
  from assms have "unat (adc_sample s j) \<noteq> 0"
    by (simp add: unat_eq_0)
  then have "unat (raw_sample s) \<noteq> 0"
    by (simp add: j unat_sample)
  then have "raw_sample s \<noteq> 0" by auto
  then obtain v s1 where r: "readVccVoltage s = Inr (v, s1)"
    using readVccVoltage_nonzero by blast
  define s' where "s' = delay_ms 1000 (indicate (ucast v) s1)"
  have b: "loop_body s = Inr s'"
    by (simp add: loop_body_def r s'_def)
  from b obtain v' s1' where r': "readVccVoltage s = Inr (v', s1')"
    and e: "s' = emit (Delay_ms 1000) (indicate (ucast v') s1')"
    by (rule loop_body_returns)
  from r r' have "v' = v" and "s1' = s1" by simp_all
  with e have "adc_sample s' = adc_sample s1"
    using readVccVoltage_returns(3) [OF r] by (simp add: emit_def indicate_idle)
  with b readVccVoltage_returns(5) [OF r] show ?thesis by simp
qed

lemma main_loop_total:
  "\<forall>k. adc_sample s k \<noteq> 0 \<Longrightarrow> \<exists>s'. main_loop n s = Inr s'"
proof (induction n arbitrary: s)
  case 0
  then show ?case by simp
next
  case (Suc n)
  from loop_body_total [OF Suc.prems] obtain s1 where b: "loop_body s = Inr s1"
    and e: "adc_sample s1 = adc_sample s"
    by blast
  from Suc.prems e have "\<forall>k. adc_sample s1 k \<noteq> 0" by simp
  from Suc.IH [OF this] b show ?case by simp
qed

lemma main_total: "r \<noteq> 0 \<Longrightarrow> \<exists>s'. main n (bench r c) = Inr s'"
  unfolding main_def by (rule main_loop_total) (simp add: bench_def)

section \<open>The claims\<close>

text \<open>
  Claim C1, as the code has it. For every raw sample from 1 to 1023 the call returns,
  and the value is \<open>floor(11264 / raw_sample)\<close> reduced modulo 256 by the cast to
  \<open>uint8_t\<close> on line 115. From 45 upwards the quotient is below 256 and the value is
  the quotient itself.
\<close>

theorem readVccVoltage_value:
  assumes "1 \<le> unat (raw_sample s)" and "unat (raw_sample s) \<le> 1023"
  shows "\<exists>v s'. readVccVoltage s = Inr (v, s') \<and>
           unat v = (11264 div unat (raw_sample s)) mod 256 \<and>
           (45 \<le> unat (raw_sample s) \<longrightarrow> unat v = 11264 div unat (raw_sample s))"
proof -
  from assms(1) have "raw_sample s \<noteq> 0" by (rule raw_sample_nonzero)
  then obtain s' where
    "readVccVoltage s = Inr (ucast (ucast ((11 * 1024) div raw_sample s) :: uint8_t), s')"
    using readVccVoltage_nonzero by blast
  moreover have "45 \<le> unat (raw_sample s) \<Longrightarrow>
      (11264 div unat (raw_sample s)) mod 256 = 11264 div unat (raw_sample s)"
    by (simp add: quotient_small)
  ultimately show ?thesis
    by (auto simp add: vccx10_value)
qed

theorem readVccVoltage_value_witness:
  "1 \<le> unat (raw_sample (bench 225 200)) \<and> unat (raw_sample (bench 225 200)) \<le> 1023 \<and>
   45 \<le> unat (raw_sample (bench 225 200)) \<and> decivolts (bench 225 200) = Inr 50"
  using readVccVoltage_value [of "bench 225 200"]
  by (auto simp add: unat_raw_sample_bench decivolts_def)

text \<open>
  Claim C1 as stated fails below 45: a raw sample of 40 gives \<open>floor(11264 / 40) = 281\<close>,
  and the call returns 281 - 256 = 25.
\<close>

theorem readVccVoltage_truncates_counterexample:
  "unat (raw_sample (bench 40 200)) = 40 \<and> decivolts (bench 40 200) = Inr 25 \<and>
   (11 * 1024) div (40 :: nat) = 281"
proof -
  have raw: "unat (raw_sample (bench 40 200)) = 40"
    by (simp add: unat_raw_sample_bench)
  then have "raw_sample (bench 40 200) \<noteq> 0" by auto
  then have "decivolts (bench 40 200) = Inr 25"
    by (simp add: decivolts_nonzero raw)
  with raw show ?thesis by simp
qed

text \<open>
  Claim C2. Nothing stands between the raw sample and the division on line 115: the
  call returns a value whenever the raw sample is not zero, it runs into the division
  by zero whenever the raw sample is zero, and a converter that delivers zero makes the
  call read zero.
\<close>

theorem division_unguarded:
  "(raw_sample s \<noteq> 0 \<longrightarrow> (\<exists>v s'. readVccVoltage s = Inr (v, s'))) \<and>
   (raw_sample s = 0 \<longrightarrow> readVccVoltage s = Inl DivisionByZero) \<and>
   raw_sample (bench 0 c) = 0"
  using readVccVoltage_nonzero [of s]
  by (auto simp add: readVccVoltage_zero raw_sample_bench)

theorem division_unguarded_witness:
  "raw_sample (bench 225 200) \<noteq> 0 \<and> \<not> isl (readVccVoltage (bench 225 200)) \<and>
   raw_sample (bench 0 200) = 0 \<and> readVccVoltage (bench 0 200) = Inl DivisionByZero"
proof -
  have "unat (raw_sample (bench 225 200)) = 225"
    by (simp add: unat_raw_sample_bench)
  then have "raw_sample (bench 225 200) \<noteq> 0" by auto
  moreover have "raw_sample (bench 0 200) = 0"
    by (simp add: raw_sample_bench)
  ultimately show ?thesis
    using division_unguarded [of "bench 225 200" 200] division_unguarded [of "bench 0 200" 200]
    by auto
qed

text \<open>
  Claim C3, as the code has it. Over the raw samples from 45 to 1023 the returned value
  does not increase when the raw sample grows: there it is the untruncated quotient.
\<close>

theorem decivolts_antitone:
  assumes "45 \<le> unat (raw_sample a)"
    and "unat (raw_sample a) < unat (raw_sample b)"
    and "unat (raw_sample b) \<le> 1023"
  shows "\<exists>va a' vb b'. readVccVoltage a = Inr (va, a') \<and> readVccVoltage b = Inr (vb, b') \<and>
           unat va = 11264 div unat (raw_sample a) \<and>
           unat vb = 11264 div unat (raw_sample b) \<and> vb \<le> va"
proof -
  from assms have ra: "1 \<le> unat (raw_sample a)" and rb: "1 \<le> unat (raw_sample b)"
    and b45: "45 \<le> unat (raw_sample b)"
    by simp_all
  obtain a' where a': "readVccVoltage a = Inr (ucast (ucast ((11 * 1024) div raw_sample a) :: uint8_t), a')"
    using readVccVoltage_nonzero [OF raw_sample_nonzero [OF ra]] by blast
  obtain b' where b': "readVccVoltage b = Inr (ucast (ucast ((11 * 1024) div raw_sample b) :: uint8_t), b')"
    using readVccVoltage_nonzero [OF raw_sample_nonzero [OF rb]] by blast
  define va :: uint16_t where "va = ucast (ucast ((11 * 1024) div raw_sample a) :: uint8_t)"
  define vb :: uint16_t where "vb = ucast (ucast ((11 * 1024) div raw_sample b) :: uint8_t)"
  have ua: "unat va = 11264 div unat (raw_sample a)"
    using assms(1) by (simp add: va_def vccx10_value quotient_small)
  have ub: "unat vb = 11264 div unat (raw_sample b)"
    using b45 by (simp add: vb_def vccx10_value quotient_small)
  have "11264 div unat (raw_sample b) \<le> 11264 div unat (raw_sample a)"
    using assms(1,2) by (intro div_le_mono2) simp_all
  then have "vb \<le> va"
    by (simp add: word_le_nat_alt ua ub)
  with a' b' ua ub show ?thesis
    by (auto simp add: va_def vb_def)
qed

theorem decivolts_antitone_witness:
  "45 \<le> unat (raw_sample (bench 225 200)) \<and>
   unat (raw_sample (bench 225 200)) < unat (raw_sample (bench 375 200)) \<and>
   unat (raw_sample (bench 375 200)) \<le> 1023 \<and>
   decivolts (bench 225 200) = Inr 50 \<and> decivolts (bench 375 200) = Inr 30"
  using decivolts_antitone [of "bench 225 200" "bench 375 200"]
  by (auto simp add: unat_raw_sample_bench decivolts_def)

text \<open>
  Claim C3 as stated fails at the wrap-around of the 8-bit cast: raw sample 44 returns 0
  (256 truncated), the larger raw sample 45 returns 250.
\<close>

theorem decivolts_antitone_counterexample:
  "unat (raw_sample (bench 44 200)) = 44 \<and> unat (raw_sample (bench 45 200)) = 45 \<and>
   decivolts (bench 44 200) = Inr 0 \<and> decivolts (bench 45 200) = Inr 250"
proof -
  have a: "unat (raw_sample (bench 44 200)) = 44" and b: "unat (raw_sample (bench 45 200)) = 45"
    by (simp_all add: unat_raw_sample_bench)
  then have "raw_sample (bench 44 200) \<noteq> 0" and "raw_sample (bench 45 200) \<noteq> 0"
    by auto
  then have "decivolts (bench 44 200) = Inr 0" and "decivolts (bench 45 200) = Inr 250"
    by (simp_all add: decivolts_nonzero a b)
  with a b show ?thesis by simp
qed

text \<open>
  Claim C4, where the code departs from it. The header of the source promises five
  blinks for every supply of five volts and more, but the loop blinks once per whole
  volt with no upper limit: a raw sample of 187, a reading of 60 decivolts, gives six
  blinks in the round.
\<close>

theorem six_blinks_at_six_volts:
  "unat (raw_sample (bench 187 200)) = 187 \<and> decivolts (bench 187 200) = Inr 60 \<and>
   round_blinks (bench 187 200) = Inr 6"
proof -
  have raw: "unat (raw_sample (bench 187 200)) = 187"
    by (simp add: unat_raw_sample_bench)
  then have "raw_sample (bench 187 200) \<noteq> 0" by auto
  then have "decivolts (bench 187 200) = Inr 60"
    by (simp add: decivolts_nonzero raw)
  with raw show ?thesis by (simp add: round_blinks_eq)
qed

text \<open>
  Claim C5. The number of blinks in a round is the decivolt reading divided by ten,
  rounded down (and the round fails exactly when the reading does); the same holds for
  the blink loop on its own, started in any state with any reading \<open>d\<close>, so that 29
  gives two blinks and 30 gives three.
\<close>

theorem whole_volt_count:
  "round_blinks s = map_sum id (\<lambda>d. d div 10) (decivolts s) \<and>
   blinks (new_obs s (indicate d s)) = unat d div 10 \<and>
   blinks (new_obs s (indicate 29 s)) = 2 \<and>
   blinks (new_obs s (indicate 30 s)) = 3"
  by (simp add: round_blinks_eq indicate_blinks)

theorem whole_volt_count_witness:
  "decivolts (bench 375 200) = Inr 30 \<and> round_blinks (bench 375 200) = Inr 3 \<and>
   blinks (new_obs (bench 375 200) (indicate 29 (bench 375 200))) = 2 \<and>
   blinks (new_obs (bench 375 200) (indicate 30 (bench 375 200))) = 3"
proof -
  have "unat (raw_sample (bench 375 200)) = 375"
    by (simp add: unat_raw_sample_bench)
  then have "raw_sample (bench 375 200) \<noteq> 0" by auto
  then have "decivolts (bench 375 200) = Inr 30"
    by (simp add: decivolts_nonzero unat_raw_sample_bench)
  then show ?thesis
    using whole_volt_count [of "bench 375 200" 0] by simp
qed

text \<open>
  Claim C6. Whenever \<open>readVccVoltage\<close> returns, the enable bit ADEN of ADCSRA is
  clear; it is still clear when the round ends; and in every observation that a run of
  \<open>main\<close> logs outside a call of \<open>readVccVoltage\<close> the converter is off.
\<close>

theorem adc_off_outside_call:
  "(readVccVoltage s = Inr (v, s1) \<longrightarrow> \<not> bit (ADCSRA s1) ADEN) \<and>
   (loop_body s = Inr s2 \<longrightarrow> \<not> bit (ADCSRA s2) ADEN) \<and>
   (main n s = Inr s' \<longrightarrow> (\<forall>x \<in> set (new_obs s s'). \<not> in_call x \<longrightarrow> \<not> adc_on x))"
proof (intro conjI impI)
  assume "readVccVoltage s = Inr (v, s1)"
  then show "\<not> bit (ADCSRA s1) ADEN" by (rule readVccVoltage_returns)
next
  assume "loop_body s = Inr s2"
  from round_adc [OF this] show "\<not> bit (ADCSRA s2) ADEN" by blast
next
  assume "main n s = Inr s'"
  then have "main_loop n (s\<lparr>DDRA := DDRA s OR BV PORTA7\<rparr>) = Inr s'"
    by (simp add: main_def)
  from main_loop_adc [OF this] obtain xs where "log s' = log s @ xs"
    and xs: "\<forall>x \<in> set xs. in_call x \<or> \<not> adc_on x"
    by auto
  then have "new_obs s s' = xs" by (intro new_obs_append)
  with xs show "\<forall>x \<in> set (new_obs s s'). \<not> in_call x \<longrightarrow> \<not> adc_on x" by auto
qed

theorem adc_off_outside_call_witness:
  "(case readVccVoltage (bench 225 200) of Inl e \<Rightarrow> False
    | Inr (v, s1) \<Rightarrow> \<not> bit (ADCSRA s1) ADEN) \<and>
   (case loop_body (bench 225 200) of Inl e \<Rightarrow> False
    | Inr s2 \<Rightarrow> \<not> bit (ADCSRA s2) ADEN) \<and>
   (case main 2 (bench 225 200) of Inl e \<Rightarrow> False
    | Inr s' \<Rightarrow> list_all (\<lambda>x. in_call x \<or> \<not> adc_on x) (new_obs (bench 225 200) s'))"
proof -
  obtain v s1 where r: "readVccVoltage (bench 225 200) = Inr (v, s1)"
    using bench_call [of 225 200] by auto
  obtain s2 where b: "loop_body (bench 225 200) = Inr s2"
    using loop_body_total [of "bench 225 200"] by (auto simp add: bench_def)
  obtain s' where m: "main 2 (bench 225 200) = Inr s'"
    using main_total [of 225 2 200] by auto
  from adc_off_outside_call [of "bench 225 200" v s1 s2 2 s'] r b m
  show ?thesis by (auto simp add: list_all_iff)
qed

text \<open>
  Claim C7, where the code departs from it. Line 66 sets ADSC together with ADEN, so
  the converter starts a conversion the moment it is switched on, before the settling
  delay of line 74 begins; lines 81 and 87 then start two more. On the test bench the
  call logs three conversions, the first of them ahead of the delay.
\<close>

theorem conversion_started_before_settling:
  "map_sum id (\<lambda>(v, s'). map act (log s')) (readVccVoltage (bench 225 200)) =
   Inr [Call, ConvStart 0, Delay_ms 1, ConvDone 0 225, ConvStart 1, ConvDone 1 225,
        ConvStart 2, ConvDone 2 225, Return 50]"
proof -
  from bench_call [of 225 200] obtain v s' where r: "readVccVoltage (bench 225 200) = Inr (v, s')"
    and v: "unat v = (11264 div unat (225 :: 10 word)) mod 256"
    and l: "map act (log s') = [Call, ConvStart 0, Delay_ms 1, ConvDone 0 225, ConvStart 1,
       ConvDone 1 225, ConvStart 2, ConvDone 2 225, Return v]"
    by auto
  from v have "v = 50" by (intro unat_50) simp
  with r l show ?thesis by simp
qed

text \<open>
  Claim C8. A round that completes consists of the call, in which the port is not
  written, then as many pulses as the reading has whole volts, each one a write that
  drives PA7 high, a delay of 250 ms with the pin high, a write that drives it low and
  a delay of 250 ms with the pin low, and at last one delay of 1000 ms. With a count
  of zero only the call and the pause remain.
\<close>

theorem round_events:
  assumes "loop_body s = Inr s'"
  shows "\<exists>v s1. readVccVoltage s = Inr (v, s1) \<and>
     new_obs s s' = new_obs s s1 @ new_obs s1 s' \<and>
     list_all (\<lambda>x. \<not> pin_event (act x)) (new_obs s s1) \<and>
     map act (new_obs s1 s') =
       concat (replicate (unat v div 10) [Pin True, Delay_ms 250, Pin False, Delay_ms 250]) @
       [Delay_ms 1000] \<and>
     new_obs s1 s' = concat (replicate (unat v div 10) (pulse_obs False False)) @
       [\<lparr>act = Delay_ms 1000, pin_high = (bit (PORTA s) PORTA7 \<and> unat v div 10 = 0),
         adc_on = False, in_call = False\<rparr>]"
proof -
  from round_obs [OF assms] obtain v s1 where r: "readVccVoltage s = Inr (v, s1)"
    and l: "log s' = log s1 @ concat (replicate (unat v div 10) (pulse_obs False False)) @
       [\<lparr>act = Delay_ms 1000, pin_high = (bit (PORTA s) PORTA7 \<and> unat v div 10 = 0),
         adc_on = False, in_call = False\<rparr>]"
    by blast
  from readVccVoltage_returns(7) [OF r] obtain xs where xs: "log s1 = log s @ xs"
    and c: "\<forall>x \<in> set xs. pin_high x = bit (PORTA s) PORTA7 \<and> \<not> pin_event (act x) \<and>
              (in_call x \<or> \<not> adc_on x)"
    by blast
  have n1: "new_obs s s1 = xs"
    using xs by (rule new_obs_append)
  have n2: "new_obs s1 s' = concat (replicate (unat v div 10) (pulse_obs False False)) @
       [\<lparr>act = Delay_ms 1000, pin_high = (bit (PORTA s) PORTA7 \<and> unat v div 10 = 0),
         adc_on = False, in_call = False\<rparr>]"
    using l by (rule new_obs_append)
  have n: "new_obs s s' = new_obs s s1 @ new_obs s1 s'"
    unfolding n1 n2 by (rule new_obs_append) (simp add: l xs)
  have quiet_call: "list_all (\<lambda>x. \<not> pin_event (act x)) (new_obs s s1)"
    using c by (simp add: n1 list_all_iff)
  have acts: "map act (new_obs s1 s') =
       concat (replicate (unat v div 10) [Pin True, Delay_ms 250, Pin False, Delay_ms 250]) @
       [Delay_ms 1000]"
    by (simp add: n2 act_pulses)
  from r n quiet_call acts n2 show ?thesis
    by (intro exI [of _ v] exI [of _ s1] conjI)
qed

theorem round_events_witness:
  "(case loop_body (bench 225 200) of Inl e \<Rightarrow> False
    | Inr s' \<Rightarrow>
       (case readVccVoltage (bench 225 200) of Inl e \<Rightarrow> False
        | Inr (v, s1) \<Rightarrow> v = 50 \<and>
            map act (new_obs s1 s') =
              [Pin True, Delay_ms 250, Pin False, Delay_ms 250,
               Pin True, Delay_ms 250, Pin False, Delay_ms 250,
               Pin True, Delay_ms 250, Pin False, Delay_ms 250,
               Pin True, Delay_ms 250, Pin False, Delay_ms 250,
               Pin True, Delay_ms 250, Pin False, Delay_ms 250,
               Delay_ms 1000]))"
proof -
  obtain s' where b: "loop_body (bench 225 200) = Inr s'"
    using loop_body_total [of "bench 225 200"] by (auto simp add: bench_def)
  from round_events [OF b] obtain v s1 where r: "readVccVoltage (bench 225 200) = Inr (v, s1)"
    and e: "map act (new_obs s1 s') =
       concat (replicate (unat v div 10) [Pin True, Delay_ms 250, Pin False, Delay_ms 250]) @
       [Delay_ms 1000]"
    by blast
  from bench_call [of 225 200] r have "unat v = 50" by auto
  then have v: "v = 50" by (rule unat_50)
  have "replicate (5 :: nat) x = [x, x, x, x, x]" for x :: "event list"
    by (simp add: numeral_eq_Suc)
  with e v r b show ?thesis by simp
qed

text \<open>
  Claim C9. For every raw sample from 1 to 1023 the call returns a value below 256,
  though the return type has 16 bits.
\<close>

theorem return_fits_8_bits:
  assumes "1 \<le> unat (raw_sample s)" and "unat (raw_sample s) \<le> 1023"
  shows "\<exists>v s'. readVccVoltage s = Inr (v, s') \<and> unat v < 256"
proof -
  from assms(1) have "raw_sample s \<noteq> 0" by (rule raw_sample_nonzero)
  then obtain s' where
    "readVccVoltage s = Inr (ucast (ucast ((11 * 1024) div raw_sample s) :: uint8_t), s')"
    using readVccVoltage_nonzero by blast
  then show ?thesis
    by (auto simp add: vccx10_value)
qed

theorem return_fits_8_bits_witness:
  "1 \<le> unat (raw_sample (bench 1 200)) \<and> unat (raw_sample (bench 1 200)) \<le> 1023 \<and>
   (case readVccVoltage (bench 1 200) of Inl e \<Rightarrow> False | Inr (v, s') \<Rightarrow> unat v < 256)"
  using return_fits_8_bits [of "bench 1 200"]
  by (auto simp add: unat_raw_sample_bench)

text \<open>
  Claim C10. A round that begins with PA7 low, or that blinks at least once, ends with
  PA7 low: every pulse ends by driving the pin low and nothing else writes the port.
  So from a start with the pin low, as after reset, the pin is low at the end of every
  round, and low in every observation logged during the 1000 ms pause or inside a call
  of \<open>readVccVoltage\<close>.
\<close>

theorem pin_low_between_blink_cycles:
  "(loop_body s = Inr s1 \<longrightarrow> \<not> bit (PORTA s) PORTA7 \<or> round_blinks s \<noteq> Inr 0 \<longrightarrow>
      \<not> bit (PORTA s1) PORTA7) \<and>
   (\<not> bit (PORTA s) PORTA7 \<longrightarrow> main n s = Inr s' \<longrightarrow>
      \<not> bit (PORTA s') PORTA7 \<and>
      (\<forall>x \<in> set (new_obs s s'). in_call x \<or> act x = Delay_ms 1000 \<longrightarrow> \<not> pin_high x))"
proof (intro conjI impI)
  assume b: "loop_body s = Inr s1"
    and start: "\<not> bit (PORTA s) PORTA7 \<or> round_blinks s \<noteq> Inr 0"
  from round_obs [OF b] obtain v t where r: "readVccVoltage s = Inr (v, t)"
    and p: "bit (PORTA s1) PORTA7 = (bit (PORTA s) PORTA7 \<and> unat v div 10 = 0)"
    by blast
  from r have "round_blinks s = Inr (unat v div 10)"
    by (simp add: round_blinks_eq decivolts_def)
  with start p show "\<not> bit (PORTA s1) PORTA7" by auto
next
  assume low: "\<not> bit (PORTA s) PORTA7" and m: "main n s = Inr s'"
  from m have m': "main_loop n (s\<lparr>DDRA := DDRA s OR BV PORTA7\<rparr>) = Inr s'"
    by (simp add: main_def)
  from low have "\<not> bit (PORTA (s\<lparr>DDRA := DDRA s OR BV PORTA7\<rparr>)) PORTA7" by simp
  from main_loop_pin [OF m' this] obtain xs where p: "\<not> bit (PORTA s') PORTA7"
    and l: "log s' = log s @ xs"
    and xs: "\<forall>x \<in> set xs. in_call x \<or> act x = Delay_ms 1000 \<longrightarrow> \<not> pin_high x"
    by auto
  from p show "\<not> bit (PORTA s') PORTA7" .
  from l have "new_obs s s' = xs" by (intro new_obs_append)
  with xs show "\<forall>x \<in> set (new_obs s s'). in_call x \<or> act x = Delay_ms 1000 \<longrightarrow> \<not> pin_high x"
    by simp
qed

theorem pin_low_between_blink_cycles_witness:
  "\<not> bit (PORTA (bench 225 200)) PORTA7 \<and> round_blinks (bench 225 200) = Inr 5 \<and>
   (case loop_body (bench 225 200) of Inl e \<Rightarrow> False
    | Inr s1 \<Rightarrow> \<not> bit (PORTA s1) PORTA7) \<and>
   (case main 2 (bench 225 200) of Inl e \<Rightarrow> False
    | Inr s' \<Rightarrow> \<not> bit (PORTA s') PORTA7 \<and>
        list_all (\<lambda>x. \<not> (in_call x \<or> act x = Delay_ms 1000) \<or> \<not> pin_high x)
          (new_obs (bench 225 200) s'))"
proof -
  have low: "\<not> bit (PORTA (bench 225 200)) PORTA7"
    by (simp add: bench_def)
  have "unat (raw_sample (bench 225 200)) = 225"
    by (simp add: unat_raw_sample_bench)
  then have "raw_sample (bench 225 200) \<noteq> 0" by auto
  then have "decivolts (bench 225 200) = Inr 50"
    by (simp add: decivolts_nonzero unat_raw_sample_bench)
  then have five: "round_blinks (bench 225 200) = Inr 5"
    by (simp add: round_blinks_eq)
  obtain s1 where b: "loop_body (bench 225 200) = Inr s1"
    using loop_body_total [of "bench 225 200"] by (auto simp add: bench_def)
  obtain s' where m: "main 2 (bench 225 200) = Inr s'"
    using main_total [of 225 2 200] by auto
  from pin_low_between_blink_cycles [of "bench 225 200" s1 2 s'] low five b m
  show ?thesis by (auto simp add: list_all_iff)
qed

end
